theory Spec2Isabelle
  imports Main
begin

section \<open>Data model\<close>

text \<open>
  A Node \<open>Buffer\<close> is a sequence of bytes, a decoded line is a sequence of characters.
  Both are modelled as \<open>char list\<close> (an Isabelle \<open>char\<close> is one byte), and
  \<open>toString('utf8')\<close> is the identity on it: the quote, comma, carriage-return and
  line-feed characters the parser compares against are single bytes below 0x80, which
  UTF-8 never uses inside a multi-byte sequence.
\<close>

type_synonym Buffer = "char list"

definition DELIMITER :: char where
  "DELIMITER = CHR '',''"

definition QUOTE :: char where
  "QUOTE = CHR 0x22"

definition LF :: char where
  "LF = CHR 0x0A"

definition CR :: char where
  "CR = CHR 0x0D"

text \<open>
  A row is a JavaScript object used as a dictionary. It is modelled as the list of its
  own properties in the order in which the engine enumerates them (the order in which
  \<open>console.log\<close> and \<open>JSON.stringify\<close> show them): first the keys that are array indices,
  in ascending numeric order, then all other keys in the order of their creation. An
  array index is the canonical decimal numeral of a number below \<open>2^32 - 1\<close>: \<open>0\<close>, or
  digits that do not start with \<open>0\<close>.
\<close>

type_synonym 'v Row = "(string \<times> 'v) list"

definition isDigit :: "char \<Rightarrow> bool" where
  "isDigit c = (48 \<le> (of_char c :: int) \<and> (of_char c :: int) \<le> 57)"

definition indexValue :: "string \<Rightarrow> int" where
  "indexValue k = foldl (\<lambda>n c. 10 * n + ((of_char c :: int) - 48)) 0 k"

definition isArrayIndex :: "string \<Rightarrow> bool" where
  "isArrayIndex k =
     (k \<noteq> [] \<and> list_all isDigit k \<and> (k = ''0'' \<or> 49 \<le> (of_char (hd k) :: int))
      \<and> indexValue k < 4294967295)"

text \<open>Giving a new value to a property that exists keeps its place.\<close>

fun replaceProp :: "string \<Rightarrow> 'v \<Rightarrow> 'v Row \<Rightarrow> 'v Row" where
  "replaceProp k v [] = []"
| "replaceProp k v ((k', v') # row) =
     (if k' = k then (k, v) # row else (k', v') # replaceProp k v row)"

text \<open>A new array index goes behind the array indices below it.\<close>

fun insertIndex :: "string \<Rightarrow> 'v \<Rightarrow> 'v Row \<Rightarrow> 'v Row" where
  "insertIndex k v [] = [(k, v)]"
| "insertIndex k v ((k', v') # row) =
     (if isArrayIndex k' \<and> indexValue k' < indexValue k
      then (k', v') # insertIndex k v row else (k, v) # (k', v') # row)"

text \<open>Creating or redefining the own property \<open>k\<close> (what object spread and \<open>JSON.parse\<close>
  do for every key).\<close>

definition defineProp :: "string \<Rightarrow> 'v \<Rightarrow> 'v Row \<Rightarrow> 'v Row" where
  "defineProp k v row =
     (if k \<in> set (map fst row) then replaceProp k v row
      else if isArrayIndex k then insertIndex k v row
      else row @ [(k, v)])"

text \<open>
  The assignment \<open>row[k] = v\<close> of a string \<open>v\<close> to a row built from \<open>{}\<close>. For the key
  \<open>__proto__\<close> the assignment runs the setter inherited from \<open>Object.prototype\<close>, which
  ignores a value that is not an object: no own property is created.
\<close>

definition setProp :: "string \<Rightarrow> 'v \<Rightarrow> 'v Row \<Rightarrow> 'v Row" where
  "setProp k v row = (if k = ''__proto__'' then row else defineProp k v row)"


text \<open>What \<open>processBlockOfLines\<close> writes to the console for one line: the row object when
  a header is known, the bare value array otherwise.\<close>

datatype logged = Record "string Row" | Values "string list"

section \<open>Line field tokenizer: \<open>parseCsvLine\<close>\<close>

text \<open>The \<open>for (const char of line)\<close> loop, with its three local variables as arguments.\<close>

fun parseLoop :: "string \<Rightarrow> string list \<Rightarrow> string \<Rightarrow> bool \<Rightarrow> string list" where
  "parseLoop [] vals current inQuotes = vals @ [current]"
| "parseLoop (char # line) vals current inQuotes =
     (if char = QUOTE then parseLoop line vals current (\<not> inQuotes)
      else if char = DELIMITER \<and> \<not> inQuotes then parseLoop line (vals @ [current]) [] inQuotes
      else parseLoop line vals (current @ [char]) inQuotes)"

definition parseCsvLine :: "string \<Rightarrow> string list" where
  "parseCsvLine line = parseLoop line [] [] False"

section \<open>Chunk line splitter: \<open>splitLinesFromBuffer\<close>\<close>

text \<open>\<open>buffer.subarray(start, end)\<close>; an end before the start gives the empty buffer.\<close>

definition subarray :: "Buffer \<Rightarrow> nat \<Rightarrow> nat \<Rightarrow> Buffer" where
  "subarray buffer start end = take (end - start) (drop start buffer)"

text \<open>
  The \<open>while (i < buffer.length)\<close> loop. Its arguments are the loop variables
  \<open>lines\<close>, \<open>lineStart\<close>, \<open>lastNewLinePos\<close>, \<open>inQuotes\<close> and \<open>i\<close>; the result is their
  value when the loop exits.
\<close>

function splitLoop ::
  "Buffer \<Rightarrow> string list \<Rightarrow> nat \<Rightarrow> int \<Rightarrow> bool \<Rightarrow> nat \<Rightarrow> string list \<times> nat \<times> int \<times> bool" where
  "splitLoop buffer lines lineStart lastNewLinePos inQuotes i =
     (if i < length buffer then
        let isQuote = (buffer ! i = QUOTE);
            inQuotes' = (if isQuote then \<not> inQuotes else inQuotes);
            i' = (if isQuote \<and> i + 1 < length buffer \<and> buffer ! (i + 1) = QUOTE
                  then i + 1 else i)
        in if buffer ! i' = LF \<and> \<not> inQuotes' then
             let end = (if i' > 0 \<and> buffer ! (i' - 1) = CR then i' - 1 else i')
             in splitLoop buffer (lines @ [subarray buffer lineStart end])
                  (i' + 1) (int i') inQuotes' (i' + 1)
           else splitLoop buffer lines lineStart lastNewLinePos inQuotes' (i' + 1)
      else (lines, lineStart, lastNewLinePos, inQuotes))"
  by pat_completeness auto
termination
  by (relation "measure (\<lambda>(buffer, lines, lineStart, lastNewLinePos, inQuotes, i). length buffer - i)")
     (auto simp: Let_def)

definition splitLinesFromBuffer :: "Buffer \<Rightarrow> string list \<times> Buffer" where
  "splitLinesFromBuffer buffer =
     (case splitLoop buffer [] 0 (- 1) False 0 of
        (lines, lineStart, lastNewLinePos, inQuotes) \<Rightarrow>
          if lastNewLinePos = - 1 \<and> \<not> inQuotes \<and> length buffer > 0
          then (lines @ [buffer], [])
          else (lines,
                drop (if lastNewLinePos \<ge> 0 then nat (lastNewLinePos + 1) else lineStart) buffer))"

section \<open>Row assembler and driver\<close>

text \<open>\<open>headers.forEach((header, index) => ...)\<close> on the row under construction.\<close>

fun forEachHeader :: "string list \<Rightarrow> nat \<Rightarrow> string list \<Rightarrow> string Row \<Rightarrow> string Row" where
  "forEachHeader [] index vals row = row"
| "forEachHeader (header # headers) index vals row =
     forEachHeader headers (index + 1) vals
       (if index < length vals then setProp header (vals ! index) row else row)"

fun processBlockOfLines :: "string list \<Rightarrow> string list \<Rightarrow> logged list" where
  "processBlockOfLines [] headers = []"
| "processBlockOfLines (line # lines) headers =
     (let vals = parseCsvLine line
      in (if length headers > 0 then Record (forEachHeader headers 0 vals [])
          else Values vals) # processBlockOfLines lines headers)"

text \<open>
  The \<open>for await (const chunk of stream)\<close> loop of \<open>parseAndLogCsv\<close>. The stream is the
  list of chunks it delivers; the arguments are \<open>headers\<close>, \<open>isFirstChunk\<close>,
  \<open>remainderBuffer\<close> and the rows logged so far.
\<close>

fun chunkLoop ::
  "Buffer list \<Rightarrow> string list \<Rightarrow> bool \<Rightarrow> Buffer \<Rightarrow> logged list
     \<Rightarrow> string list \<times> bool \<times> Buffer \<times> logged list" where
  "chunkLoop [] headers isFirstChunk remainderBuffer out =
     (headers, isFirstChunk, remainderBuffer, out)"
| "chunkLoop (chunk # stream) headers isFirstChunk remainderBuffer out =
     (case splitLinesFromBuffer (remainderBuffer @ chunk) of
        (lines, remainder) \<Rightarrow>
          if isFirstChunk \<and> length lines > 0 then
            let headers' = parseCsvLine (lines ! 0)
            in chunkLoop stream headers' False remainder
                 (out @ processBlockOfLines (drop 1 lines) headers')
          else chunkLoop stream headers isFirstChunk remainder
                 (out @ processBlockOfLines lines headers))"

definition parseAndLogCsv :: "Buffer list \<Rightarrow> logged list" where
  "parseAndLogCsv stream =
     (case chunkLoop stream [] True [] [] of
        (headers, isFirstChunk, remainderBuffer, out) \<Rightarrow>
          if length remainderBuffer > 0
          then out @ processBlockOfLines (fst (splitLinesFromBuffer remainderBuffer)) headers
          else out)"


section \<open>Post-processing of a block of rows (second program version)\<close>

text \<open>
  \<open>postProcessRows\<close> sends the \<open>phone\<close> and \<open>address\<close> value of every row to the two
  cleaning calls, awaits all of them and merges the answers into the rows. The answers
  come from an external service, so the two calls are parameters: \<open>clean index arg\<close> is
  how the call made for the row at position \<open>index\<close> with argument \<open>arg\<close> settles.
  A call either rejects (the request itself fails), or resolves with \<open>null\<close> (the
  \<open>catch\<close> branch: the answer could not be read) or with the parsed answer object.
  The token counts, which are only printed, are left out. The tokenizer and the
  splitter of this version are the ones above; its \<open>processBlockOfLines\<close> collects the
  rows instead of printing them and passes every block of rows through
  \<open>postProcessRows\<close>, and its driver loop appends what that returns.
\<close>

datatype json = JString string | JNull












section \<open>The splitter as a recursion over the unread bytes\<close>

text \<open>
  For the proofs the scan is restated as a recursion over the bytes not yet read:
  \<open>seg\<close> holds the bytes of the current line read so far, \<open>q\<close> is the quote flag, and the
  result is the lines found, the bytes after the last terminator, and the final flag.
  \<open>splitLoop_scanRest\<close> below shows that the index loop computes exactly this.
\<close>

definition stripCR :: "Buffer \<Rightarrow> Buffer" where
  "stripCR seg = (if seg \<noteq> [] \<and> last seg = CR then butlast seg else seg)"

fun scanRest :: "Buffer \<Rightarrow> bool \<Rightarrow> Buffer \<Rightarrow> string list \<times> Buffer \<times> bool" where
  "scanRest seg q [] = ([], seg, q)"
| "scanRest seg q (c # cs) =
     (if c = QUOTE \<and> cs \<noteq> [] \<and> hd cs = QUOTE then scanRest (seg @ [c, hd cs]) (\<not> q) (tl cs)
      else if c = QUOTE then scanRest (seg @ [c]) (\<not> q) cs
      else if c = LF \<and> \<not> q then
        (case scanRest [] False cs of (ls, seg', q') \<Rightarrow> (stripCR seg # ls, seg', q'))
      else scanRest (seg @ [c]) q cs)"

section \<open>Basic facts\<close>

declare splitLoop.simps [simp del]

lemma QUOTE_neq_LF [simp]: "QUOTE \<noteq> LF" "LF \<noteq> QUOTE"
  by (simp_all add: QUOTE_def LF_def)

lemma subarray_Suc:
  "start \<le> i \<Longrightarrow> i < length buffer \<Longrightarrow>
   subarray buffer start (Suc i) = subarray buffer start i @ [buffer ! i]"
  by (simp add: subarray_def Suc_diff_le take_Suc_conv_app_nth)

lemma subarray_same [simp]: "subarray buffer start start = []"
  by (simp add: subarray_def)

lemma subarray_end:
  assumes "start \<le> i" "i < length buffer"
  shows "subarray buffer start (if i > 0 \<and> buffer ! (i - 1) = CR then i - 1 else i)
         = stripCR (subarray buffer start i)"
proof (cases "start = i")
  case True
  then show ?thesis by (simp add: stripCR_def subarray_def)
next
  case False
  with assms have lt: "start < i" by simp
  then obtain j where j: "i = Suc j" "start \<le> j" "j < length buffer"
    using assms by (cases i) auto
  have "subarray buffer start i = subarray buffer start j @ [buffer ! j]"
    using j subarray_Suc by simp
  then show ?thesis using j by (simp add: stripCR_def)
qed

lemma scanRest_no_lines:
  "scanRest seg q cs = ([], seg', q') \<Longrightarrow> seg' = seg @ cs"
proof (induction seg q cs arbitrary: seg' q' rule: scanRest.induct)
  case (1 seg q)
  then show ?case by simp
next
  case (2 seg q c cs)
  show ?case
  proof (cases "c = QUOTE \<and> cs \<noteq> [] \<and> hd cs = QUOTE")
    case True
    then have "cs = QUOTE # tl cs" by (cases cs) auto
    with 2 True show ?thesis by (metis append_Cons append_Nil append_assoc scanRest.simps(2))
  next
    case False
    with 2 show ?thesis by (auto split: if_splits prod.splits)
  qed
qed

lemma hd_drop_Suc: "Suc i < length buffer \<Longrightarrow> hd (drop (Suc i) buffer) = buffer ! Suc i"
  by (simp add: hd_drop_conv_nth)

lemma splitLoop_scanRest:
  "lineStart \<le> i \<Longrightarrow> i \<le> length buffer \<Longrightarrow>
   splitLoop buffer lines lineStart lnl q i =
     (case scanRest (subarray buffer lineStart i) q (drop i buffer) of
        (ls, seg, q') \<Rightarrow>
          (lines @ ls, length buffer - length seg,
           if ls = [] then lnl else int (length buffer - length seg) - 1, q'))"
proof (induction "length buffer - i" arbitrary: i lines lineStart lnl q rule: less_induct)
  case less
  show ?case
  proof (cases "i < length buffer")
    case False
    with less.prems have "i = length buffer" by simp
    then show ?thesis
      using less.prems by (subst splitLoop.simps) (simp add: subarray_def)
  next
    case True
    have dr: "drop i buffer = buffer ! i # drop (Suc i) buffer"
      using True by (simp add: Cons_nth_drop_Suc)
    let ?seg = "subarray buffer lineStart i"
    have seg1: "subarray buffer lineStart (Suc i) = ?seg @ [buffer ! i]"
      using less.prems True by (simp add: subarray_Suc)
    consider (skip) "buffer ! i = QUOTE" "Suc i < length buffer" "buffer ! Suc i = QUOTE"
      | (quote) "buffer ! i = QUOTE" "\<not> (Suc i < length buffer \<and> buffer ! Suc i = QUOTE)"
      | (newline) "buffer ! i \<noteq> QUOTE" "buffer ! i = LF" "\<not> q"
      | (other) "buffer ! i \<noteq> QUOTE" "\<not> (buffer ! i = LF \<and> \<not> q)"
      by blast
    then show ?thesis
    proof cases
      case skip
      have dr2: "drop (Suc i) buffer = buffer ! Suc i # drop (Suc (Suc i)) buffer"
        using skip Cons_nth_drop_Suc [of "Suc i" buffer] by simp
      have seg2: "subarray buffer lineStart (Suc (Suc i)) = ?seg @ [QUOTE, QUOTE]"
        using less.prems skip seg1 subarray_Suc [of lineStart "Suc i" buffer] by simp
      have ih: "splitLoop buffer lines lineStart lnl (\<not> q) (Suc (Suc i)) =
         (case scanRest (subarray buffer lineStart (Suc (Suc i))) (\<not> q) (drop (Suc (Suc i)) buffer) of
            (ls, seg, q') \<Rightarrow>
              (lines @ ls, length buffer - length seg,
               if ls = [] then lnl else int (length buffer - length seg) - 1, q'))"
        using less.prems skip by (intro less.hyps) auto
      show ?thesis
        using skip True ih
        by (subst splitLoop.simps) (simp add: dr dr2 seg2)
    next
      case quote
      have nq: "\<not> (drop (Suc i) buffer \<noteq> [] \<and> hd (drop (Suc i) buffer) = QUOTE)"
        using quote by (auto simp: hd_drop_Suc)
      have ih: "splitLoop buffer lines lineStart lnl (\<not> q) (Suc i) =
         (case scanRest (subarray buffer lineStart (Suc i)) (\<not> q) (drop (Suc i) buffer) of
            (ls, seg, q') \<Rightarrow>
              (lines @ ls, length buffer - length seg,
               if ls = [] then lnl else int (length buffer - length seg) - 1, q'))"
        using less.prems True by (intro less.hyps) auto
      show ?thesis
        using quote True ih nq
        by (subst splitLoop.simps) (auto simp: dr seg1)
    next
      case newline
      let ?line = "subarray buffer lineStart (if i > 0 \<and> buffer ! (i - 1) = CR then i - 1 else i)"
      have line: "?line = stripCR ?seg"
        using less.prems(1) True by (rule subarray_end)
      have ih: "splitLoop buffer (lines @ [?line]) (Suc i) (int i) q (Suc i) =
         (case scanRest (subarray buffer (Suc i) (Suc i)) q (drop (Suc i) buffer) of
            (ls, seg, q') \<Rightarrow>
              ((lines @ [?line]) @ ls, length buffer - length seg,
               if ls = [] then int i else int (length buffer - length seg) - 1, q'))"
        using less.prems True by (intro less.hyps) auto
      obtain ls seg' q' where sc: "scanRest [] False (drop (Suc i) buffer) = (ls, seg', q')"
        by (cases "scanRest [] False (drop (Suc i) buffer)") auto
      have len: "ls = [] \<Longrightarrow> int i = int (length buffer - length seg') - 1"
        using scanRest_no_lines [of "[]" False "drop (Suc i) buffer" seg' q'] sc True by auto
      have unfold: "splitLoop buffer lines lineStart lnl q i =
          splitLoop buffer (lines @ [?line]) (Suc i) (int i) q (Suc i)"
        using newline True by (subst splitLoop.simps) (simp add: Let_def)
      show ?thesis
        unfolding unfold ih using newline sc len line
        by (simp add: dr)
    next
      case other
      have ih: "splitLoop buffer lines lineStart lnl q (Suc i) =
         (case scanRest (subarray buffer lineStart (Suc i)) q (drop (Suc i) buffer) of
            (ls, seg, q') \<Rightarrow>
              (lines @ ls, length buffer - length seg,
               if ls = [] then lnl else int (length buffer - length seg) - 1, q'))"
        using less.prems True by (intro less.hyps) auto
      show ?thesis
        using other True ih
        by (subst splitLoop.simps) (auto simp: dr seg1)
    qed
  qed
qed


lemma scanRest_result:
  "scanRest seg q cs = (ls, seg', q') \<Longrightarrow>
   (ls = [] \<and> seg' = seg @ cs) \<or>
   (ls \<noteq> [] \<and> (\<exists>pre. cs = pre @ LF # seg') \<and> scanRest [] False seg' = ([], seg', q'))"
proof (induction seg q cs arbitrary: ls seg' q' rule: scanRest.induct)
  case (1 seg q)
  then show ?case by simp
next
  case (2 seg q c cs)
  consider (skip) "c = QUOTE" "cs \<noteq> []" "hd cs = QUOTE"
    | (quote) "c = QUOTE" "\<not> (cs \<noteq> [] \<and> hd cs = QUOTE)"
    | (newline) "c \<noteq> QUOTE" "c = LF" "\<not> q"
    | (other) "c \<noteq> QUOTE" "\<not> (c = LF \<and> \<not> q)"
    by blast
  then show ?case
  proof cases
    case skip
    then have cs: "cs = QUOTE # tl cs" by (cases cs) auto
    have "scanRest (seg @ [c, hd cs]) (\<not> q) (tl cs) = (ls, seg', q')"
      using "2.prems" skip by simp
    from "2.IH"(1) [OF _ this] skip
    have "(ls = [] \<and> seg' = (seg @ [c, hd cs]) @ tl cs) \<or>
          (ls \<noteq> [] \<and> (\<exists>pre. tl cs = pre @ LF # seg') \<and> scanRest [] False seg' = ([], seg', q'))"
      by simp
    then show ?thesis
    proof
      assume "ls = [] \<and> seg' = (seg @ [c, hd cs]) @ tl cs"
      then show ?thesis using skip cs by (metis append.assoc append_Cons append_Nil)
    next
      assume a: "ls \<noteq> [] \<and> (\<exists>pre. tl cs = pre @ LF # seg') \<and> scanRest [] False seg' = ([], seg', q')"
      then obtain pre where "tl cs = pre @ LF # seg'" by blast
      then have "c # cs = (c # QUOTE # pre) @ LF # seg'" using cs by (metis append_Cons)
      then show ?thesis using a by blast
    qed
  next
    case quote
    have "scanRest (seg @ [c]) (\<not> q) cs = (ls, seg', q')"
      using "2.prems" quote by auto
    from "2.IH"(2) [OF _ _ this] quote
    have "(ls = [] \<and> seg' = (seg @ [c]) @ cs) \<or>
          (ls \<noteq> [] \<and> (\<exists>pre. cs = pre @ LF # seg') \<and> scanRest [] False seg' = ([], seg', q'))"
      by blast
    then show ?thesis
    proof
      assume "ls = [] \<and> seg' = (seg @ [c]) @ cs"
      then show ?thesis by simp
    next
      assume a: "ls \<noteq> [] \<and> (\<exists>pre. cs = pre @ LF # seg') \<and> scanRest [] False seg' = ([], seg', q')"
      then obtain pre where "cs = pre @ LF # seg'" by blast
      then have "c # cs = (c # pre) @ LF # seg'" by simp
      then show ?thesis using a by blast
    qed
  next
    case newline
    obtain ls0 where sc: "scanRest [] False cs = (ls0, seg', q')" and ls: "ls = stripCR seg # ls0"
      using "2.prems" newline by (auto split: prod.splits)
    have ih: "(ls0 = [] \<and> seg' = [] @ cs) \<or>
          (ls0 \<noteq> [] \<and> (\<exists>pre. cs = pre @ LF # seg') \<and> scanRest [] False seg' = ([], seg', q'))"
      using "2.IH"(3) [OF _ _ _ sc] newline by blast
    then show ?thesis
    proof
      assume a: "ls0 = [] \<and> seg' = [] @ cs"
      then have "c # cs = [] @ LF # seg'" using newline by simp
      moreover have "scanRest [] False seg' = ([], seg', q')" using a sc by simp
      ultimately show ?thesis using ls by blast
    next
      assume a: "ls0 \<noteq> [] \<and> (\<exists>pre. cs = pre @ LF # seg') \<and> scanRest [] False seg' = ([], seg', q')"
      then obtain pre where "cs = pre @ LF # seg'" by blast
      then have "c # cs = (c # pre) @ LF # seg'" by simp
      then show ?thesis using a ls by blast
    qed
  next
    case other
    have "scanRest (seg @ [c]) q cs = (ls, seg', q')"
      using "2.prems" other by auto
    from "2.IH"(4) [OF _ _ _ this] other
    have "(ls = [] \<and> seg' = (seg @ [c]) @ cs) \<or>
          (ls \<noteq> [] \<and> (\<exists>pre. cs = pre @ LF # seg') \<and> scanRest [] False seg' = ([], seg', q'))"
      by blast
    then show ?thesis
    proof
      assume "ls = [] \<and> seg' = (seg @ [c]) @ cs"
      then show ?thesis by simp
    next
      assume a: "ls \<noteq> [] \<and> (\<exists>pre. cs = pre @ LF # seg') \<and> scanRest [] False seg' = ([], seg', q')"
      then obtain pre where "cs = pre @ LF # seg'" by blast
      then have "c # cs = (c # pre) @ LF # seg'" by simp
      then show ?thesis using a by blast
    qed
  qed
qed

lemma splitLoop_start:
  assumes "scanRest [] False buffer = (ls, seg, q)"
  shows "splitLoop buffer [] 0 (- 1) False 0 =
           (ls, length buffer - length seg, if ls = [] then - 1 else int (length buffer - length seg) - 1, q)"
  using splitLoop_scanRest [of 0 0 buffer "[]" "- 1" False] assms by simp

lemma splitLinesFromBuffer_scanRest:
  assumes "scanRest [] False buffer = (ls, seg, q)"
  shows "splitLinesFromBuffer buffer =
           (if ls = [] \<and> \<not> q \<and> buffer \<noteq> [] then ([buffer], []) else (ls, seg))"
proof -
  from scanRest_result [OF assms]
  consider (none) "ls = []" "seg = buffer"
    | (some) pre where "ls \<noteq> []" "buffer = pre @ LF # seg"
    by auto
  then show ?thesis
  proof cases
    case none
    then show ?thesis
      by (simp add: splitLinesFromBuffer_def splitLoop_start [OF assms])
  next
    case some
    have "length buffer - length seg = Suc (length pre)" using some by simp
    moreover have "drop (nat (int (length pre) + 1)) buffer = seg"
      using some by (simp add: nat_add_distrib)
    ultimately show ?thesis using some(1)
      by (simp add: splitLinesFromBuffer_def splitLoop_start [OF assms])
  qed
qed

section \<open>Claims on concrete streams\<close>

text \<open>
  C1 (chunk-size invariance). The stream \<open>a,b\<newline>1,2\<newline>\<close> delivered as one chunk gives
  the header \<open>a,b\<close> and the single record \<open>{a: 1, b: 2}\<close>. Delivered as the two chunks
  \<open>a,b\<close> and \<open>\<newline>1,2\<newline>\<close>, the first buffer holds no line feed and no open quote, so
  \<open>splitLinesFromBuffer\<close> emits it whole and carries nothing; the second buffer then
  starts with a line feed, which closes an empty line, and the parse logs an additional
  record \<open>{a: ""}\<close>. The two results differ although the bytes are the same.
\<close>

theorem chunk_boundary_changes_records:
  "concat [''a,b'', LF # ''1,2'' @ [LF]] = concat [''a,b'' @ LF # ''1,2'' @ [LF]]
   \<and> parseAndLogCsv [''a,b'' @ LF # ''1,2'' @ [LF]]
       = [Record [(''a'', ''1''), (''b'', ''2'')]]
   \<and> parseAndLogCsv [''a,b'', LF # ''1,2'' @ [LF]]
       = [Record [(''a'', '''')], Record [(''a'', ''1''), (''b'', ''2'')]]"
  by code_simp

text \<open>
  C2 (the remainder starts at a line boundary). After the driver has consumed the single
  chunk \<open>a,b\<close>, a stream prefix without any line terminator, the line \<open>a,b\<close> has already
  been emitted (it became the header) and the carried remainder is empty: the remainder
  starts at offset 3, in the middle of the first line. When the stream continues with
  \<open>c\<newline>\<close>, the bytes \<open>c\<close> are split off as a line of their own, whereas the same bytes in
  one chunk give the header \<open>a\<close>, \<open>bc\<close>.
\<close>

theorem remainder_starts_inside_line:
  "splitLinesFromBuffer ''a,b'' = ([''a,b''], [])
   \<and> chunkLoop [''a,b''] [] True [] [] = ([''a'', ''b''], False, [], [])
   \<and> chunkLoop [''a,b'', ''c'' @ [LF]] [] True [] []
       = ([''a'', ''b''], False, [], [Record [(''a'', ''c'')]])
   \<and> chunkLoop [''a,b'' @ ''c'' @ [LF]] [] True [] [] = ([''a'', ''bc''], False, [], [])"
  by code_simp

text \<open>
  C3 (unterminated quote at the end of the stream). For the stream \<open>a\<newline>"b\<close> the loop
  emits the header line \<open>a\<close> and carries the remainder \<open>"b\<close>. The end-of-stream step
  splits that remainder once more; the quote is still open at its end, so the splitter
  returns no line, and the step uses only the lines of the result. The tail is dropped:
  the parse logs no record at all.
\<close>

theorem open_quote_tail_is_dropped:
  "chunkLoop [''a'' @ [LF, QUOTE] @ ''b''] [] True [] [] = ([''a''], False, QUOTE # ''b'', [])
   \<and> splitLinesFromBuffer (QUOTE # ''b'') = ([], QUOTE # ''b'')
   \<and> parseAndLogCsv [''a'' @ [LF, QUOTE] @ ''b''] = []"
  by code_simp

text \<open>
  C4 (a quoted field with an embedded newline gives one record). The stream
  \<open>x\<newline>"a""b\<newline>c"\<newline>\<close> has one data row: a quoted field that holds an escaped quote
  and a line feed. Split into the chunks \<open>x\<newline>"a""b\<close> and \<open>\<newline>c"\<newline>\<close> (and also as one
  chunk), the parse logs the record \<open>{x: "ab"}\<close> and nothing else. The splitter toggles
  its flag once for the escaped pair and skips its second quote, which leaves the flag
  false inside the field; the embedded line feed then ends the line, and the rest of the
  row is left behind an open quote and dropped at the end of the stream. The same
  happens after an empty quoted field: \<open>x,y\<newline>"","a\<newline>b"\<newline>\<close> gives \<open>{x: "", y: "a"}\<close>.
  Without a pair of quotes the row is handled: \<open>x\<newline>"a\<newline>b"\<newline>\<close> gives one record whose
  value keeps the line feed.
\<close>

theorem embedded_newline_splits_row:
  "parseAndLogCsv [''x'' @ [LF, QUOTE] @ ''a'' @ [QUOTE, QUOTE] @ ''b'', LF # ''c'' @ [QUOTE, LF]]
     = [Record [(''x'', ''ab'')]]
   \<and> parseAndLogCsv [''x'' @ [LF, QUOTE] @ ''a'' @ [QUOTE, QUOTE] @ ''b'' @ LF # ''c'' @ [QUOTE, LF]]
     = [Record [(''x'', ''ab'')]]
   \<and> splitLinesFromBuffer ([QUOTE] @ ''a'' @ [QUOTE, QUOTE] @ ''b'' @ LF # ''c'' @ [QUOTE, LF])
     = ([[QUOTE] @ ''a'' @ [QUOTE, QUOTE] @ ''b''], ''c'' @ [QUOTE, LF])
   \<and> parseAndLogCsv [''x,y'' @ [LF, QUOTE, QUOTE] @ '','' @ [QUOTE] @ ''a'', LF # ''b'' @ [QUOTE, LF]]
     = [Record [(''x'', ''''), (''y'', ''a'')]]
   \<and> parseAndLogCsv [''x'' @ [LF, QUOTE] @ ''a'', LF # ''b'' @ [QUOTE, LF]]
     = [Record [(''x'', ''a'' @ LF # ''b'')]]"
  by code_simp

section \<open>The field tokenizer\<close>

lemma QUOTE_neq_DELIMITER [simp]: "QUOTE \<noteq> DELIMITER" "DELIMITER \<noteq> QUOTE"
  by (simp_all add: QUOTE_def DELIMITER_def)

lemma parseLoop_no_quote:
  "QUOTE \<notin> set (concat vals) \<Longrightarrow> QUOTE \<notin> set current \<Longrightarrow>
   QUOTE \<notin> set (concat (parseLoop line vals current inQuotes))"
proof (induction line arbitrary: vals current inQuotes)
  case Nil
  then show ?case by simp
next
  case (Cons char line)
  have a: "QUOTE \<notin> set (concat (vals @ [current]))" using Cons.prems by simp
  have b: "char \<noteq> QUOTE \<Longrightarrow> QUOTE \<notin> set (current @ [char])" using Cons.prems by simp
  show ?case
    using Cons.IH [OF Cons.prems, of "\<not> inQuotes"] Cons.IH [OF a, of "[]" inQuotes]
      Cons.IH [OF Cons.prems(1) b, of inQuotes]
    by (auto simp del: set_concat set_append)
qed

lemma parseLoop_quote_pair:
  "parseLoop (a @ QUOTE # QUOTE # b) vals current inQuotes = parseLoop (a @ b) vals current inQuotes"
proof (induction a arbitrary: vals current inQuotes)
  case Nil
  show ?case by simp
next
  case (Cons char a)
  show ?case by (simp add: Cons.IH)
qed


lemma parseLoop_prefix:
  "DELIMITER \<notin> set pre \<Longrightarrow>
   parseLoop (pre @ rest) vals current inQuotes =
     parseLoop rest vals (current @ filter (\<lambda>c. c \<noteq> QUOTE) pre)
       (inQuotes \<noteq> odd (length (filter (\<lambda>c. c = QUOTE) pre)))"
proof (induction pre arbitrary: current inQuotes)
  case Nil
  show ?case by simp
next
  case (Cons char pre)
  have d: "DELIMITER \<notin> set pre" and c: "char \<noteq> DELIMITER"
    using Cons.prems by auto
  show ?case
  proof (cases "char = QUOTE")
    case True
    then show ?thesis using Cons.IH [OF d, of current "\<not> inQuotes"] by auto
  next
    case False
    then show ?thesis using Cons.IH [OF d, of "current @ [char]" inQuotes] c by simp
  qed
qed

text \<open>
  C9. The tokenizer toggles its flag on every quote character and appends none of them.
  After a stretch \<open>pre\<close> of characters without a delimiter the flag has changed exactly when
  \<open>pre\<close> holds an odd number of quote characters, and the current field has grown by the
  characters of \<open>pre\<close> that are not quotes. The flag decides what a delimiter does: with
  the flag false it closes the field, with the flag true it is appended to the field and
  nothing is closed. Hence no field value contains a quote character, whatever the
  line; and two consecutive quote characters anywhere in a line toggle the flag twice
  and contribute nothing, so the line tokenizes as if the pair were absent. The
  splitter, in contrast, toggles once for such a pair: after the buffer \<open>""\<close> its flag is
  true.
\<close>

theorem tokenizer_drops_every_quote:
  assumes "DELIMITER \<notin> set pre"
  shows "parseLoop (pre @ DELIMITER # rest) vals current inQuotes =
           (if inQuotes \<noteq> odd (length (filter (\<lambda>c. c = QUOTE) pre))
            then parseLoop rest vals
                   (current @ filter (\<lambda>c. c \<noteq> QUOTE) pre @ [DELIMITER]) True
            else parseLoop rest (vals @ [current @ filter (\<lambda>c. c \<noteq> QUOTE) pre]) [] False)
         \<and> parseLoop (pre @ rest) vals current inQuotes =
             parseLoop rest vals (current @ filter (\<lambda>c. c \<noteq> QUOTE) pre)
               (inQuotes \<noteq> odd (length (filter (\<lambda>c. c = QUOTE) pre)))
         \<and> QUOTE \<notin> set (concat (parseCsvLine line))
         \<and> parseCsvLine (a @ [QUOTE, QUOTE] @ b) = parseCsvLine (a @ b)
         \<and> parseLoop (QUOTE # rest) vals current inQuotes = parseLoop rest vals current (\<not> inQuotes)
         \<and> splitLoop [QUOTE, QUOTE] [] 0 (- 1) False 0 = ([], 0, - 1, True)"
proof -
  have "splitLoop [QUOTE, QUOTE] [] 0 (- 1) False 0 = ([], 0, - 1, True)"
    by code_simp
  moreover have "parseLoop (pre @ DELIMITER # rest) vals current inQuotes =
           (if inQuotes \<noteq> odd (length (filter (\<lambda>c. c = QUOTE) pre))
            then parseLoop rest vals
                   (current @ filter (\<lambda>c. c \<noteq> QUOTE) pre @ [DELIMITER]) True
            else parseLoop rest (vals @ [current @ filter (\<lambda>c. c \<noteq> QUOTE) pre]) [] False)"
    unfolding parseLoop_prefix [OF assms, of "DELIMITER # rest"] by auto
  moreover note parseLoop_prefix [OF assms, of rest vals current inQuotes]
  moreover have "QUOTE \<notin> set (concat (parseCsvLine line))"
    using parseLoop_no_quote [of "[]" "[]" line False] by (simp add: parseCsvLine_def del: set_concat)
  moreover have "parseCsvLine (a @ [QUOTE, QUOTE] @ b) = parseCsvLine (a @ b)"
    using parseLoop_quote_pair [of a b "[]" "[]" False] by (simp add: parseCsvLine_def)
  moreover have "parseLoop (QUOTE # rest) vals current inQuotes = parseLoop rest vals current (\<not> inQuotes)"
    by simp
  ultimately show ?thesis by (simp only: simp_thms)
qed

theorem tokenizer_drops_every_quote_witness:
  "DELIMITER \<notin> set (QUOTE # ''Doe'')
   \<and> parseCsvLine ((QUOTE # ''Doe'') @ DELIMITER # '' John'' @ [QUOTE] @ '',30'')
       = [''Doe, John'', ''30'']
   \<and> parseCsvLine (''Doe'' @ DELIMITER # '' John,30'') = [''Doe'', '' John'', ''30'']
   \<and> parseCsvLine (''a'' @ [QUOTE, QUOTE] @ ''b,c'') = [''ab'', ''c'']
   \<and> QUOTE \<notin> set (concat [''ab'', ''c''])"
proof -
  have d: "DELIMITER \<notin> set (QUOTE # ''Doe'')"
    by (simp add: DELIMITER_def QUOTE_def)
  have f: "filter (\<lambda>c. c = QUOTE) (QUOTE # ''Doe'') = [QUOTE]"
    "filter (\<lambda>c. c \<noteq> QUOTE) (QUOTE # ''Doe'') = ''Doe''"
    by (simp_all add: QUOTE_def)
  have r: "parseLoop ('' John'' @ [QUOTE] @ '',30'') [] (''Doe'' @ [DELIMITER]) True
             = [''Doe, John'', ''30'']"
    by code_simp
  have u: "parseCsvLine (''Doe'' @ DELIMITER # '' John,30'') = [''Doe'', '' John'', ''30'']"
    by code_simp
  have "parseCsvLine (''a'' @ ''b,c'') = [''ab'', ''c'']"
    by code_simp
  then show ?thesis
    using tokenizer_drops_every_quote
      [OF d, of "'' John'' @ [QUOTE] @ '',30''" "[]" "[]" False
         "''a'' @ [QUOTE, QUOTE] @ ''b,c''" "''a''" "''b,c''"] d f r u
    by (simp add: parseCsvLine_def QUOTE_def)
qed

section \<open>The splitter\<close>

lemma splitLoop_scanRest_start:
  assumes "splitLoop buffer [] 0 (- 1) False 0 = (lines, lineStart, lastNewLinePos, inQuotes)"
  shows "scanRest [] False buffer = (lines, drop lineStart buffer, inQuotes)"
    and "lineStart \<le> length buffer"
    and "lastNewLinePos = (if lines = [] then - 1 else int lineStart - 1)"
    and "lines = [] \<Longrightarrow> lineStart = 0"
    and "lines \<noteq> [] \<Longrightarrow> 0 < lineStart"
proof -
  obtain ls seg q where sc: "scanRest [] False buffer = (ls, seg, q)"
    by (cases "scanRest [] False buffer") auto
  from splitLoop_start [OF sc] assms
  have eq: "lines = ls" "lineStart = length buffer - length seg" "inQuotes = q"
    "lastNewLinePos = (if ls = [] then - 1 else int (length buffer - length seg) - 1)"
    by simp_all
  from scanRest_result [OF sc]
  consider (none) "ls = []" "seg = buffer"
    | (some) pre where "ls \<noteq> []" "buffer = pre @ LF # seg"
    by auto
  then have "drop lineStart buffer = seg \<and> (ls = [] \<longrightarrow> lineStart = 0) \<and> (ls \<noteq> [] \<longrightarrow> 0 < lineStart)"
  proof cases
    case none
    then show ?thesis using eq by simp
  next
    case some
    then have "lineStart = Suc (length pre)" using eq by simp
    then show ?thesis using some by simp
  qed
  then show "scanRest [] False buffer = (lines, drop lineStart buffer, inQuotes)"
    and "lines = [] \<Longrightarrow> lineStart = 0" and "lines \<noteq> [] \<Longrightarrow> 0 < lineStart"
    using sc eq by simp_all
  show "lineStart \<le> length buffer" using eq by simp
  show "lastNewLinePos = (if lines = [] then - 1 else int lineStart - 1)" using eq by simp
qed

text \<open>
  C5. For a non-empty buffer, let the loop exit with \<open>lines\<close>, \<open>lineStart\<close>,
  \<open>lastNewLinePos\<close> and \<open>inQuotes\<close>. If no terminator was found (\<open>lastNewLinePos\<close> is still
  \<open>-1\<close>, which is the case exactly when no line was recorded) and the flag is false, the
  result is the whole buffer as the only line and an empty remainder. In every other
  case the result is the recorded lines and, as remainder, the bytes from \<open>lineStart\<close>
  (the position after the last terminator, or 0) to the end of the buffer.
\<close>

theorem end_of_buffer_rule:
  assumes "buffer \<noteq> []"
    and "splitLoop buffer [] 0 (- 1) False 0 = (lines, lineStart, lastNewLinePos, inQuotes)"
  shows "splitLinesFromBuffer buffer =
           (if lastNewLinePos = - 1 \<and> \<not> inQuotes then ([buffer], [])
            else (lines, drop lineStart buffer))
         \<and> (lastNewLinePos = - 1) = (lines = [])
         \<and> lineStart = nat (lastNewLinePos + 1)
         \<and> lineStart \<le> length buffer"
proof -
  note facts = splitLoop_scanRest_start [OF assms(2)]
  have lnl: "(lastNewLinePos = - 1) = (lines = [])"
    using facts(3,5) by (cases "lines = []") auto
  have ls: "lineStart = nat (lastNewLinePos + 1)"
    using facts(3,4) by (cases "lines = []") auto
  have "splitLinesFromBuffer buffer =
          (if lines = [] \<and> \<not> inQuotes \<and> buffer \<noteq> [] then ([buffer], [])
           else (lines, drop lineStart buffer))"
    by (rule splitLinesFromBuffer_scanRest [OF facts(1)])
  then show ?thesis
    using assms(1) lnl ls facts(2) by simp
qed

theorem end_of_buffer_rule_witness:
  "splitLoop (''a,b'' @ LF # ''1,2'') [] 0 (- 1) False 0 = ([''a,b''], 4, 3, False)
   \<and> splitLinesFromBuffer (''a,b'' @ LF # ''1,2'') = ([''a,b''], ''1,2'')
   \<and> splitLoop ''1,2'' [] 0 (- 1) False 0 = ([], 0, - 1, False)
   \<and> splitLinesFromBuffer ''1,2'' = ([''1,2''], [])
   \<and> splitLoop (QUOTE # ''1,2'') [] 0 (- 1) False 0 = ([], 0, - 1, True)
   \<and> splitLinesFromBuffer (QUOTE # ''1,2'') = ([], QUOTE # ''1,2'')"
proof -
  have n1: "''a,b'' @ LF # ''1,2'' \<noteq> []" and n2: "''1,2'' \<noteq> []" and n3: "QUOTE # ''1,2'' \<noteq> []"
    by simp_all
  have s1: "splitLoop (''a,b'' @ LF # ''1,2'') [] 0 (- 1) False 0 = ([''a,b''], 4, 3, False)"
    by code_simp
  have s2: "splitLoop ''1,2'' [] 0 (- 1) False 0 = ([], 0, - 1, False)"
    by code_simp
  have s3: "splitLoop (QUOTE # ''1,2'') [] 0 (- 1) False 0 = ([], 0, - 1, True)"
    by code_simp
  show ?thesis
    using end_of_buffer_rule [OF n1 s1] end_of_buffer_rule [OF n2 s2]
      end_of_buffer_rule [OF n3 s3] s1 s2 s3
    by simp
qed

lemma scanRest_append_LF:
  "scanRest seg q xs = (ls, seg', False) \<Longrightarrow>
   scanRest seg q (xs @ LF # post) =
     (case scanRest [] False post of (ls2, seg2, q2) \<Rightarrow> (ls @ stripCR seg' # ls2, seg2, q2))"
proof (induction seg q xs arbitrary: ls seg' rule: scanRest.induct)
  case (1 seg q)
  then show ?case by (auto split: prod.splits)
next
  case (2 seg q c cs)
  consider (skip) "c = QUOTE" "cs \<noteq> []" "hd cs = QUOTE"
    | (quote) "c = QUOTE" "\<not> (cs \<noteq> [] \<and> hd cs = QUOTE)"
    | (newline) "c \<noteq> QUOTE" "c = LF" "\<not> q"
    | (other) "c \<noteq> QUOTE" "\<not> (c = LF \<and> \<not> q)"
    by blast
  then show ?case
  proof cases
    case skip
    have "scanRest (seg @ [c, hd cs]) (\<not> q) (tl cs) = (ls, seg', False)"
      using "2.prems" skip by simp
    from "2.IH"(1) [OF _ this] skip
    have "scanRest (seg @ [c, hd cs]) (\<not> q) (tl cs @ LF # post) =
          (case scanRest [] False post of (ls2, seg2, q2) \<Rightarrow> (ls @ stripCR seg' # ls2, seg2, q2))"
      by simp
    then show ?thesis using skip by simp
  next
    case quote
    have "scanRest (seg @ [c]) (\<not> q) cs = (ls, seg', False)"
      using "2.prems" quote by auto
    from "2.IH"(2) [OF _ _ this] quote
    have ih: "scanRest (seg @ [c]) (\<not> q) (cs @ LF # post) =
          (case scanRest [] False post of (ls2, seg2, q2) \<Rightarrow> (ls @ stripCR seg' # ls2, seg2, q2))"
      by blast
    have "\<not> (cs @ LF # post \<noteq> [] \<and> hd (cs @ LF # post) = QUOTE)"
      using quote by (cases cs) auto
    then show ?thesis using quote ih by simp
  next
    case newline
    obtain ls0 where sc: "scanRest [] False cs = (ls0, seg', False)" and ls: "ls = stripCR seg # ls0"
      using "2.prems" newline by (auto split: prod.splits)
    have ih: "scanRest [] False (cs @ LF # post) =
          (case scanRest [] False post of (ls2, seg2, q2) \<Rightarrow> (ls0 @ stripCR seg' # ls2, seg2, q2))"
      using "2.IH"(3) [OF _ _ _ sc] newline by blast
    show ?thesis using newline ih ls by (simp split: prod.splits)
  next
    case other
    have "scanRest (seg @ [c]) q cs = (ls, seg', False)"
      using "2.prems" other by auto
    from "2.IH"(4) [OF _ _ _ this] other
    have ih: "scanRest (seg @ [c]) q (cs @ LF # post) =
          (case scanRest [] False post of (ls2, seg2, q2) \<Rightarrow> (ls @ stripCR seg' # ls2, seg2, q2))"
      by blast
    show ?thesis using other ih by auto
  qed
qed



section \<open>Carrying the remainder\<close>

text \<open>
  The scan itself does not depend on where a buffer ends: scanning the bytes after the
  last terminator of a first buffer together with the bytes that follow continues the
  scan of the whole. What the driver carries, however, is the remainder returned by
  \<open>splitLinesFromBuffer\<close>, which is empty instead when the first buffer has no terminator
  and ends with the flag false.
\<close>

lemma scanRest_last_terminator:
  "scanRest seg q cs = (ls, seg', q') \<Longrightarrow> ls \<noteq> [] \<Longrightarrow>
   \<exists>pre ls0 s0. cs = pre @ LF # seg' \<and> scanRest seg q pre = (ls0, s0, False)
                 \<and> ls = ls0 @ [stripCR s0]"
proof (induction seg q cs arbitrary: ls seg' q' rule: scanRest.induct)
  case (1 seg q)
  then show ?case by simp
next
  case (2 seg q c cs)
  consider (skip) "c = QUOTE" "cs \<noteq> []" "hd cs = QUOTE"
    | (quote) "c = QUOTE" "\<not> (cs \<noteq> [] \<and> hd cs = QUOTE)"
    | (newline) "c \<noteq> QUOTE" "c = LF" "\<not> q"
    | (other) "c \<noteq> QUOTE" "\<not> (c = LF \<and> \<not> q)"
    by blast
  then show ?case
  proof cases
    case skip
    then have cs: "cs = QUOTE # tl cs" by (cases cs) auto
    have "scanRest (seg @ [c, hd cs]) (\<not> q) (tl cs) = (ls, seg', q')"
      using "2.prems" skip by simp
    from "2.IH"(1) [OF _ this "2.prems"(2)] skip
    obtain pre ls0 s0 where p: "tl cs = pre @ LF # seg'"
      "scanRest (seg @ [c, hd cs]) (\<not> q) pre = (ls0, s0, False)" "ls = ls0 @ [stripCR s0]"
      by blast
    have "c # cs = (c # QUOTE # pre) @ LF # seg'"
      using p(1) cs by (metis append_Cons)
    moreover have "scanRest seg q (c # QUOTE # pre) = (ls0, s0, False)"
      using p(2) skip by simp
    ultimately show ?thesis using p(3) by blast
  next
    case quote
    have "scanRest (seg @ [c]) (\<not> q) cs = (ls, seg', q')"
      using "2.prems" quote by auto
    from "2.IH"(2) [OF _ _ this "2.prems"(2)] quote
    obtain pre ls0 s0 where p: "cs = pre @ LF # seg'"
      "scanRest (seg @ [c]) (\<not> q) pre = (ls0, s0, False)" "ls = ls0 @ [stripCR s0]"
      by blast
    have "\<not> (pre \<noteq> [] \<and> hd pre = QUOTE)"
      using quote(2) p(1) by (cases pre) auto
    then have "scanRest seg q (c # pre) = (ls0, s0, False)"
      using p(2) quote(1) by auto
    moreover have "c # cs = (c # pre) @ LF # seg'" using p(1) by simp
    ultimately show ?thesis using p(3) by blast
  next
    case newline
    obtain ls1 where sc: "scanRest [] False cs = (ls1, seg', q')" and ls: "ls = stripCR seg # ls1"
      using "2.prems" newline by (auto split: prod.splits)
    show ?thesis
    proof (cases "ls1 = []")
      case True
      then have "seg' = cs" using scanRest_no_lines [of "[]" False cs seg' q'] sc by simp
      then have "c # cs = [] @ LF # seg'" using newline by simp
      moreover have "scanRest seg q [] = ([], seg, False)" using newline by simp
      moreover have "ls = [] @ [stripCR seg]" using ls True by simp
      ultimately show ?thesis by blast
    next
      case False
      from "2.IH"(3) [OF _ _ _ sc False] newline
      obtain pre ls0 s0 where p: "cs = pre @ LF # seg'"
        "scanRest [] False pre = (ls0, s0, False)" "ls1 = ls0 @ [stripCR s0]"
        by blast
      have "c # cs = (c # pre) @ LF # seg'" using p(1) by simp
      moreover have "scanRest seg q (c # pre) = (stripCR seg # ls0, s0, False)"
        using p(2) newline by simp
      moreover have "ls = (stripCR seg # ls0) @ [stripCR s0]" using ls p(3) by simp
      ultimately show ?thesis by blast
    qed
  next
    case other
    have "scanRest (seg @ [c]) q cs = (ls, seg', q')"
      using "2.prems" other by auto
    from "2.IH"(4) [OF _ _ _ this "2.prems"(2)] other
    obtain pre ls0 s0 where p: "cs = pre @ LF # seg'"
      "scanRest (seg @ [c]) q pre = (ls0, s0, False)" "ls = ls0 @ [stripCR s0]"
      by blast
    have "scanRest seg q (c # pre) = (ls0, s0, False)"
      using p(2) other by auto
    moreover have "c # cs = (c # pre) @ LF # seg'" using p(1) by simp
    ultimately show ?thesis using p(3) by blast
  qed
qed

lemma scanRest_carry:
  assumes "scanRest [] False buffer = (ls1, seg1, q1)"
  shows "scanRest [] False (buffer @ chunk) =
           (case scanRest [] False (seg1 @ chunk) of (ls2, seg2, q2) \<Rightarrow> (ls1 @ ls2, seg2, q2))"
proof (cases "ls1 = []")
  case True
  then have "seg1 = buffer" using scanRest_no_lines [of "[]" False buffer seg1 q1] assms by simp
  then show ?thesis using True by (simp split: prod.splits)
next
  case False
  from scanRest_last_terminator [OF assms False]
  obtain pre ls0 s0 where p: "buffer = pre @ LF # seg1"
    "scanRest [] False pre = (ls0, s0, False)" "ls1 = ls0 @ [stripCR s0]"
    by blast
  have "buffer @ chunk = pre @ LF # (seg1 @ chunk)" using p(1) by simp
  then show ?thesis
    using scanRest_append_LF [OF p(2), of "seg1 @ chunk"] p(3) by (simp split: prod.splits)
qed

lemma splitLoop_carry:
  assumes "splitLoop buffer [] 0 (- 1) False 0 = (lines1, lineStart1, lastNewLinePos1, inQuotes1)"
    and "splitLoop (drop lineStart1 buffer @ chunk) [] 0 (- 1) False 0
           = (lines2, lineStart2, lastNewLinePos2, inQuotes2)"
  shows "splitLoop (buffer @ chunk) [] 0 (- 1) False 0 =
           (lines1 @ lines2, lineStart1 + lineStart2,
            if lines2 = [] then lastNewLinePos1 else int lineStart1 + lastNewLinePos2, inQuotes2)"
proof -
  note first = splitLoop_scanRest_start [OF assms(1)]
  note second = splitLoop_scanRest_start [OF assms(2)]
  let ?seg = "drop lineStart2 (drop lineStart1 buffer @ chunk)"
  have sc: "scanRest [] False (buffer @ chunk) = (lines1 @ lines2, ?seg, inQuotes2)"
    using scanRest_carry [OF first(1), of chunk] second(1) by simp
  have "length ?seg = length buffer - lineStart1 + length chunk - lineStart2"
    by simp
  then have len: "length (buffer @ chunk) - length ?seg = lineStart1 + lineStart2"
    using first(2) second(2) by simp
  show ?thesis
  proof (cases "lines2 = []")
    case True
    then have "lineStart2 = 0" using second(4) by simp
    then show ?thesis
      using splitLoop_start [OF sc] first(3) True unfolding len by simp
  next
    case False
    then show ?thesis
      using splitLoop_start [OF sc] second(3) unfolding len by simp
  qed
qed

section \<open>The driver at the end of the stream\<close>

lemma scanRest_trailing_LF:
  "scanRest seg q cs = (ls, seg', False) \<Longrightarrow> cs \<noteq> [] \<Longrightarrow> last cs = LF \<Longrightarrow> seg' = []"
proof (induction seg q cs arbitrary: ls seg' rule: scanRest.induct)
  case (1 seg q)
  then show ?case by simp
next
  case (2 seg q c cs)
  consider (skip) "c = QUOTE" "cs \<noteq> []" "hd cs = QUOTE"
    | (quote) "c = QUOTE" "\<not> (cs \<noteq> [] \<and> hd cs = QUOTE)"
    | (newline) "c \<noteq> QUOTE" "c = LF" "\<not> q"
    | (other) "c \<noteq> QUOTE" "\<not> (c = LF \<and> \<not> q)"
    by blast
  then show ?case
  proof cases
    case skip
    then have cs: "cs = QUOTE # tl cs" by (cases cs) auto
    have sc: "scanRest (seg @ [c, hd cs]) (\<not> q) (tl cs) = (ls, seg', False)"
      using "2.prems" skip by simp
    have "tl cs \<noteq> []"
    proof
      assume "tl cs = []"
      then have "last (c # cs) = QUOTE" using cs by (metis last.simps list.distinct(1))
      then show False using "2.prems"(3) by simp
    qed
    moreover from this have "last (tl cs) = LF"
      using "2.prems"(3) cs by (metis last.simps list.distinct(1))
    ultimately show ?thesis using "2.IH"(1) [OF _ sc] skip by simp
  next
    case quote
    have sc: "scanRest (seg @ [c]) (\<not> q) cs = (ls, seg', False)"
      using "2.prems" quote by auto
    have "cs \<noteq> []" using "2.prems"(3) quote by auto
    moreover from this have "last cs = LF" using "2.prems"(3) by simp
    ultimately show ?thesis using "2.IH"(2) [OF _ _ sc] quote by blast
  next
    case newline
    obtain ls0 where sc: "scanRest [] False cs = (ls0, seg', False)"
      using "2.prems" newline by (auto split: prod.splits)
    show ?thesis
    proof (cases "cs = []")
      case True
      then show ?thesis using sc by simp
    next
      case False
      moreover from this have "last cs = LF" using "2.prems"(3) by simp
      ultimately show ?thesis using "2.IH"(3) [OF _ _ _ sc] newline by blast
    qed
  next
    case other
    have sc: "scanRest (seg @ [c]) q cs = (ls, seg', False)"
      using "2.prems" other by auto
    have "cs \<noteq> []"
    proof
      assume "cs = []"
      then show False using sc other "2.prems"(3) by auto
    qed
    moreover from this have "last cs = LF" using "2.prems"(3) by simp
    ultimately show ?thesis using "2.IH"(4) [OF _ _ _ sc] other by blast
  qed
qed

lemma splitLinesFromBuffer_Nil [simp]: "splitLinesFromBuffer [] = ([], [])"
  by (simp add: splitLinesFromBuffer_def splitLoop.simps)

lemma remainder_after_trailing_LF:
  assumes "buffer \<noteq> []" and "last buffer = LF"
  shows "splitLinesFromBuffer (snd (splitLinesFromBuffer buffer))
           = ([], snd (splitLinesFromBuffer buffer))"
proof -
  obtain ls seg q where sc: "scanRest [] False buffer = (ls, seg, q)"
    by (cases "scanRest [] False buffer") auto
  note split = splitLinesFromBuffer_scanRest [OF sc]
  show ?thesis
  proof (cases q)
    case False
    then have "seg = []" using scanRest_trailing_LF [of "[]" False buffer ls seg] sc assms by simp
    then show ?thesis using split by simp
  next
    case True
    then have rem: "snd (splitLinesFromBuffer buffer) = seg" using split by simp
    have "scanRest [] False seg = ([], seg, True)"
      using scanRest_result [OF sc] sc True by auto
    from splitLinesFromBuffer_scanRest [OF this] show ?thesis using rem by simp
  qed
qed

lemma chunkLoop_remainder:
  assumes "chunkLoop stream headers isFirstChunk remainderBuffer out = (headers', first', remainder', out')"
    and "concat stream = [] \<Longrightarrow> splitLinesFromBuffer remainderBuffer = ([], remainderBuffer)"
    and "concat stream \<noteq> [] \<Longrightarrow> last (concat stream) = LF"
  shows "splitLinesFromBuffer remainder' = ([], remainder')"
  using assms
proof (induction stream arbitrary: headers isFirstChunk remainderBuffer out)
  case Nil
  then show ?case by simp
next
  case (Cons chunk stream)
  obtain lines remainder where sp: "splitLinesFromBuffer (remainderBuffer @ chunk) = (lines, remainder)"
    by (cases "splitLinesFromBuffer (remainderBuffer @ chunk)") auto
  have stuck: "concat stream = [] \<Longrightarrow> splitLinesFromBuffer remainder = ([], remainder)"
  proof -
    assume e: "concat stream = []"
    show ?thesis
    proof (cases "chunk = []")
      case True
      then have "splitLinesFromBuffer remainderBuffer = ([], remainderBuffer)"
        using Cons.prems(2) e by simp
      then show ?thesis using sp True by simp
    next
      case False
      then have "last chunk = LF" using Cons.prems(3) e by simp
      then have "remainderBuffer @ chunk \<noteq> []" "last (remainderBuffer @ chunk) = LF"
        using False by simp_all
      from remainder_after_trailing_LF [OF this] show ?thesis using sp by simp
    qed
  qed
  have lf: "concat stream \<noteq> [] \<Longrightarrow> last (concat stream) = LF"
    using Cons.prems(3) by simp
  show ?case
  proof (cases "isFirstChunk \<and> length lines > 0")
    case True
    then have "chunkLoop stream (parseCsvLine (lines ! 0)) False remainder
                 (out @ processBlockOfLines (drop 1 lines) (parseCsvLine (lines ! 0)))
               = (headers', first', remainder', out')"
      using Cons.prems(1) sp by (simp add: Let_def)
    from Cons.IH [OF this stuck lf] show ?thesis .
  next
    case False
    then have "chunkLoop stream headers isFirstChunk remainder (out @ processBlockOfLines lines headers)
               = (headers', first', remainder', out')"
      using Cons.prems(1) sp by auto
    from Cons.IH [OF this stuck lf] show ?thesis .
  qed
qed

lemma single_chunk_records:
  assumes "buffer \<noteq> []" and "last buffer = LF"
  shows "parseAndLogCsv [buffer] =
           (let ls = fst (splitLoop buffer [] 0 (- 1) False 0)
            in if ls = [] then [] else processBlockOfLines (tl ls) (parseCsvLine (hd ls)))"
proof -
  obtain lines lineStart lnl q where
    sl: "splitLoop buffer [] 0 (- 1) False 0 = (lines, lineStart, lnl, q)"
    by (cases "splitLoop buffer [] 0 (- 1) False 0") auto
  note sc = splitLoop_scanRest_start(1) [OF sl]
  have "\<not> (lines = [] \<and> \<not> q)"
  proof
    assume a: "lines = [] \<and> \<not> q"
    then have "drop lineStart buffer = []"
      using scanRest_trailing_LF [of "[]" False buffer lines "drop lineStart buffer"] sc assms
      by simp
    moreover have "lineStart = 0" using splitLoop_scanRest_start(4) [OF sl] a by simp
    ultimately show False using assms(1) by simp
  qed
  then have split: "splitLinesFromBuffer buffer = (lines, drop lineStart buffer)"
    using splitLinesFromBuffer_scanRest [OF sc] by auto
  have stuck: "splitLinesFromBuffer (drop lineStart buffer) = ([], drop lineStart buffer)"
    using remainder_after_trailing_LF [OF assms] split by simp
  show ?thesis
  proof (cases "lines = []")
    case True
    then show ?thesis using sl split stuck by (simp add: parseAndLogCsv_def)
  next
    case False
    then have "lines ! 0 = hd lines" "drop 1 lines = tl lines"
      by (simp_all add: hd_conv_nth drop_Suc)
    then show ?thesis using False sl split stuck by (simp add: parseAndLogCsv_def Let_def)
  qed
qed

text \<open>
  For a stream whose last byte is a line feed, however it is cut into chunks, the
  remainder carried out of the loop is either empty or a tail behind a quote that is
  still open, for which the splitter returns no line; so the end-of-stream step adds
  nothing and the parse logs exactly what the loop has logged. In particular, when the
  scan of the bytes before a final line feed ends with the flag false, the splitter
  returns an empty remainder. Delivered as a single chunk, the stream gives one record
  for each line that the scan has terminated after the first one, and no other.
\<close>

lemma end_of_stream_step_adds_nothing:
  assumes "concat stream \<noteq> []" and "last (concat stream) = LF"
    and "chunkLoop stream [] True [] [] = (headers, isFirstChunk, remainderBuffer, out)"
  shows "parseAndLogCsv stream = out
         \<and> (remainderBuffer = [] \<or> splitLinesFromBuffer remainderBuffer = ([], remainderBuffer))
         \<and> (snd (snd (snd (splitLoop pre [] 0 (- 1) False 0))) = False
              \<longrightarrow> snd (splitLinesFromBuffer (pre @ [LF])) = [])
         \<and> parseAndLogCsv [concat stream] =
             (let ls = fst (splitLoop (concat stream) [] 0 (- 1) False 0)
              in if ls = [] then [] else processBlockOfLines (tl ls) (parseCsvLine (hd ls)))"
proof -
  have stuck: "splitLinesFromBuffer remainderBuffer = ([], remainderBuffer)"
    using chunkLoop_remainder [OF assms(3)] assms(1,2) by simp
  then have "parseAndLogCsv stream = out"
    using assms(3) by (simp add: parseAndLogCsv_def)
  moreover have "snd (snd (snd (splitLoop pre [] 0 (- 1) False 0))) = False
              \<longrightarrow> snd (splitLinesFromBuffer (pre @ [LF])) = []"
  proof
    assume f: "snd (snd (snd (splitLoop pre [] 0 (- 1) False 0))) = False"
    obtain lines lineStart lnl where
      sl: "splitLoop pre [] 0 (- 1) False 0 = (lines, lineStart, lnl, False)"
      using f by (cases "splitLoop pre [] 0 (- 1) False 0") auto
    have "scanRest [] False (pre @ LF # []) = (lines @ [stripCR (drop lineStart pre)], [], False)"
      using scanRest_append_LF [OF splitLoop_scanRest_start(1) [OF sl], of "[]"] by simp
    from splitLinesFromBuffer_scanRest [OF this]
    show "snd (splitLinesFromBuffer (pre @ [LF])) = []" by simp
  qed
  moreover note single_chunk_records [OF assms(1,2)]
  ultimately show ?thesis using stuck by simp
qed

text \<open>
  C10 (no extra empty record after a final line feed). The stream \<open>a,b\<newline>1,2\<newline>\<close> ends
  with a line feed and has one data line. Delivered as one chunk it gives the single
  record \<open>{a: 1, b: 2}\<close>. Delivered as the chunks \<open>a,b\<newline>\<close>, \<open>1,2\<close> and \<open>\<newline>\<close>, the second buffer
  holds no line feed and no open quote, so it is emitted whole and nothing is carried;
  the final line feed then arrives in a buffer of its own, closes an empty line, and the
  parse ends with the additional record \<open>{a: ""}\<close>. The remainder after the last chunk
  is empty, so the record does not come from the end-of-stream step (which, by the
  lemma above, adds nothing for any stream that ends with a line feed) but from the
  loop.
\<close>

theorem final_line_feed_gives_empty_record:
  "concat [''a,b'' @ [LF], ''1,2'', [LF]] = ''a,b'' @ LF # ''1,2'' @ [LF]
   \<and> last (''a,b'' @ LF # ''1,2'' @ [LF]) = LF
   \<and> parseAndLogCsv [''a,b'' @ LF # ''1,2'' @ [LF]] = [Record [(''a'', ''1''), (''b'', ''2'')]]
   \<and> parseAndLogCsv [''a,b'' @ [LF], ''1,2'', [LF]]
       = [Record [(''a'', ''1''), (''b'', ''2'')], Record [(''a'', '''')]]
   \<and> splitLinesFromBuffer ''1,2'' = ([''1,2''], [])
   \<and> splitLinesFromBuffer [LF] = ([''''], [])
   \<and> chunkLoop [''a,b'' @ [LF], ''1,2'', [LF]] [] True [] []
       = ([''a'', ''b''], False, [], [Record [(''a'', ''1''), (''b'', ''2'')], Record [(''a'', '''')]])"
  by code_simp

section \<open>Building a record from a line\<close>

lemma defineProp_ordinary:
  "k \<notin> fst ` set row \<Longrightarrow> \<not> isArrayIndex k \<Longrightarrow> defineProp k v row = row @ [(k, v)]"
  by (simp add: defineProp_def)

lemma set_insertIndex: "set (insertIndex k v row) = insert (k, v) (set row)"
proof (induction row)
  case Nil
  show ?case by simp
next
  case (Cons p row)
  obtain k' v' where p: "p = (k', v')" by (cases p)
  show ?case
  proof (cases "isArrayIndex k' \<and> indexValue k' < indexValue k")
    case True
    then show ?thesis using Cons p by auto
  next
    case False
    then show ?thesis using p by auto
  qed
qed

lemma distinct_insertIndex:
  "k \<notin> fst ` set row \<Longrightarrow> distinct (map fst row) \<Longrightarrow> distinct (map fst (insertIndex k v row))"
proof (induction row)
  case Nil
  then show ?case by simp
next
  case (Cons p row)
  have "fst ` set (insertIndex k v row) = insert k (fst ` set row)"
    by (simp add: set_insertIndex)
  then show ?case using Cons by (cases p) auto
qed

lemma defineProp_new:
  assumes "k \<notin> fst ` set row"
  shows "set (defineProp k v row) = insert (k, v) (set row)"
    and "distinct (map fst row) \<Longrightarrow> distinct (map fst (defineProp k v row))"
  using assms by (auto simp: defineProp_def set_insertIndex distinct_insertIndex)

lemma forEachHeader_pairs:
  assumes "distinct headers" and "''__proto__'' \<notin> set headers"
    and "set headers \<inter> fst ` set row = {}" and "distinct (map fst row)"
  shows "set (forEachHeader headers index vals row) = set row \<union> set (zip headers (drop index vals))
         \<and> distinct (map fst (forEachHeader headers index vals row))"
  using assms
proof (induction headers arbitrary: index row)
  case Nil
  then show ?case by simp
next
  case (Cons header headers)
  have fresh: "header \<notin> fst ` set row" and np: "header \<noteq> ''__proto__''"
    using Cons.prems by auto
  show ?case
  proof (cases "index < length vals")
    case True
    let ?row = "setProp header (vals ! index) row"
    have sp: "?row = defineProp header (vals ! index) row"
      using np by (simp add: setProp_def)
    have s: "set ?row = insert (header, vals ! index) (set row)"
      and d: "distinct (map fst ?row)"
      using defineProp_new [OF fresh] Cons.prems(4) sp by simp_all
    have disj: "set headers \<inter> fst ` set ?row = {}"
      using Cons.prems(1,3) s by auto
    have ih: "set (forEachHeader headers (index + 1) vals ?row)
                = set ?row \<union> set (zip headers (drop (index + 1) vals))
              \<and> distinct (map fst (forEachHeader headers (index + 1) vals ?row))"
      using Cons.prems(1,2) disj d by (intro Cons.IH) auto
    have "drop index vals = vals ! index # drop (index + 1) vals"
      using True by (simp add: Cons_nth_drop_Suc)
    then show ?thesis using True ih s by auto
  next
    case False
    have "set (forEachHeader headers (index + 1) vals row)
            = set row \<union> set (zip headers (drop (index + 1) vals))
          \<and> distinct (map fst (forEachHeader headers (index + 1) vals row))"
      using Cons.prems by (intro Cons.IH) auto
    then show ?thesis using False by simp
  qed
qed

lemma forEachHeader_ordinary:
  assumes "distinct headers" and "''__proto__'' \<notin> set headers"
    and "list_all (\<lambda>h. \<not> isArrayIndex h) headers"
    and "set headers \<inter> fst ` set row = {}"
  shows "forEachHeader headers index vals row = row @ zip headers (drop index vals)"
  using assms
proof (induction headers arbitrary: index row)
  case Nil
  then show ?case by simp
next
  case (Cons header headers)
  have fresh: "header \<notin> fst ` set row" and np: "header \<noteq> ''__proto__''"
    and ni: "\<not> isArrayIndex header"
    using Cons.prems by auto
  show ?case
  proof (cases "index < length vals")
    case True
    have new: "setProp header (vals ! index) row = row @ [(header, vals ! index)]"
      using defineProp_ordinary [OF fresh ni] np by (simp add: setProp_def)
    have disj: "set headers \<inter> fst ` set (row @ [(header, vals ! index)]) = {}"
      using Cons.prems(1,4) by auto
    have "forEachHeader headers (index + 1) vals (row @ [(header, vals ! index)])
            = (row @ [(header, vals ! index)]) @ zip headers (drop (index + 1) vals)"
      using Cons.prems(1,2,3) disj by (intro Cons.IH) auto
    moreover have "drop index vals = vals ! index # drop (index + 1) vals"
      using True by (simp add: Cons_nth_drop_Suc)
    ultimately show ?thesis using True new by simp
  next
    case False
    have "forEachHeader headers (index + 1) vals row = row @ zip headers (drop (index + 1) vals)"
      using Cons.prems by (intro Cons.IH) auto
    then show ?thesis using False by simp
  qed
qed

lemma keys_zip_absent:
  assumes "distinct hs" and "i < length hs" and "length fs \<le> i"
  shows "hs ! i \<notin> fst ` set (zip hs fs)"
proof -
  have "hs ! i \<notin> set (take (length fs) hs)"
  proof
    assume "hs ! i \<in> set (take (length fs) hs)"
    then obtain j where j: "j < length (take (length fs) hs)" "take (length fs) hs ! j = hs ! i"
      by (auto simp: in_set_conv_nth)
    then have "j < length hs" "j < length fs" "hs ! j = hs ! i" by auto
    then have "j = i" using assms(1,2) by (simp add: nth_eq_iff_index_eq)
    then show False using \<open>j < length fs\<close> assms(3) by simp
  qed
  moreover have "fst ` set (zip hs fs) = set (take (min (length hs) (length fs)) hs)"
    using map_fst_zip_take [of hs fs] by (simp only: set_map [symmetric])
  moreover have "set (take (min (length hs) (length fs)) hs) \<subseteq> set (take (length fs) hs)"
    by (rule set_take_subset_set_take) simp
  ultimately show ?thesis
    by blast
qed

text \<open>
  C6, as the claim states it, fails in four ways. A header that names a column twice
  gives one key: the second assignment to the name replaces the first value (\<open>a,a\<close> with
  the line \<open>1,2\<close> gives \<open>{a: 2}\<close>). A header name that is an array index is enumerated
  before the other keys, not in header order (\<open>b,1\<close> with \<open>x,y\<close> gives \<open>{1: y, b: x}\<close>). The
  header name \<open>__proto__\<close> gives no key at all (\<open>__proto__,a\<close> with \<open>x,y\<close> gives \<open>{a: y}\<close>).
  And with an empty header list no record is built: the value array itself is logged.
\<close>

theorem record_differs_from_header_pairs:
  "parseCsvLine ''1,2'' = [''1'', ''2''] \<and> parseCsvLine ''x,y'' = [''x'', ''y'']
   \<and> processBlockOfLines [''1,2''] [''a'', ''a''] = [Record [(''a'', ''2'')]]
   \<and> processBlockOfLines [''1,2''] [''a'', ''a''] \<noteq> [Record (zip [''a'', ''a''] (parseCsvLine ''1,2''))]
   \<and> processBlockOfLines [''x,y''] [''b'', ''1''] = [Record [(''1'', ''y''), (''b'', ''x'')]]
   \<and> processBlockOfLines [''x,y''] [''__proto__'', ''a''] = [Record [(''a'', ''y'')]]
   \<and> processBlockOfLines [''1,2''] [] = [Values [''1'', ''2'']]"
  by code_simp

text \<open>
  C6, amended. For a non-empty header list of pairwise distinct names, none of them
  \<open>__proto__\<close>, the record built for a line contains exactly the pairs of header name and
  field value at the same index, up to the shorter of the two lists: it has
  \<open>min (length headers) (length fields)\<close> entries with distinct keys, the header name at
  index \<open>i\<close> below that bound is mapped to field \<open>i\<close>, fields beyond the header are
  dropped, and a header name at or beyond the number of fields is not a key of the
  record. When no header name is an array index, the entries are in header order.
\<close>

theorem record_pairs_header_with_fields:
  assumes "headers \<noteq> []" and "distinct headers" and "''__proto__'' \<notin> set headers"
  shows "let fields = parseCsvLine line; row = forEachHeader headers 0 fields []
         in processBlockOfLines [line] headers = [Record row]
            \<and> set row = set (zip headers fields)
            \<and> distinct (map fst row)
            \<and> length row = min (length headers) (length fields)
            \<and> (\<forall>i < min (length headers) (length fields).
                  map_of row (headers ! i) = Some (fields ! i))
            \<and> (\<forall>i. length fields \<le> i \<and> i < length headers
                  \<longrightarrow> map_of row (headers ! i) = None)
            \<and> (list_all (\<lambda>h. \<not> isArrayIndex h) headers \<longrightarrow> row = zip headers fields)"
proof -
  let ?fields = "parseCsvLine line"
  let ?row = "forEachHeader headers 0 ?fields []"
  have block: "processBlockOfLines [line] headers = [Record ?row]"
    using assms(1) by (simp add: Let_def)
  have pairs: "set ?row = set (zip headers ?fields)" and keys: "distinct (map fst ?row)"
    using forEachHeader_pairs [OF assms(2,3), of "[]" 0 ?fields] by simp_all
  have "length ?row = length (map fst ?row)" by simp
  also have "\<dots> = card (fst ` set ?row)"
    using keys distinct_card [of "map fst ?row"] by simp
  also have "\<dots> = card (set (map fst (zip headers ?fields)))"
    using pairs by simp
  also have "\<dots> = length (map fst (zip headers ?fields))"
    using assms(2) by (intro distinct_card) (simp add: map_fst_zip_take)
  finally have len: "length ?row = min (length headers) (length ?fields)"
    by simp
  have present: "\<forall>i < min (length headers) (length ?fields).
                   map_of ?row (headers ! i) = Some (?fields ! i)"
  proof (intro allI impI)
    fix i assume i: "i < min (length headers) (length ?fields)"
    then have "(headers ! i, ?fields ! i) \<in> set (zip headers ?fields)"
      by (auto simp: in_set_zip)
    then show "map_of ?row (headers ! i) = Some (?fields ! i)"
      using pairs keys by (intro map_of_is_SomeI) simp_all
  qed
  have absent: "\<forall>i. length ?fields \<le> i \<and> i < length headers
                  \<longrightarrow> map_of ?row (headers ! i) = None"
  proof (intro allI impI)
    fix i assume "length ?fields \<le> i \<and> i < length headers"
    then have "headers ! i \<notin> fst ` set ?row"
      using keys_zip_absent [OF assms(2), of i ?fields] pairs by simp
    then show "map_of ?row (headers ! i) = None"
      by (simp add: map_of_eq_None_iff)
  qed
  have order: "list_all (\<lambda>h. \<not> isArrayIndex h) headers \<longrightarrow> ?row = zip headers ?fields"
    using forEachHeader_ordinary [OF assms(2,3), of "[]" 0 ?fields] by simp
  show ?thesis
    unfolding Let_def using block pairs keys len present absent order by blast
qed

theorem record_pairs_header_with_fields_witness:
  "[''a'', ''7'', ''c''] \<noteq> [] \<and> distinct [''a'', ''7'', ''c''] \<and> ''__proto__'' \<notin> set [''a'', ''7'', ''c'']
   \<and> parseCsvLine ''1,2'' = [''1'', ''2'']
   \<and> processBlockOfLines [''1,2''] [''a'', ''7'', ''c''] = [Record [(''7'', ''2''), (''a'', ''1'')]]
   \<and> set [(''7'', ''2''), (''a'', ''1'')] = set (zip [''a'', ''7'', ''c''] [''1'', ''2''])
   \<and> map_of [(''7'', ''2''), (''a'', ''1'')] ''c'' = None
   \<and> list_all (\<lambda>h. \<not> isArrayIndex h) [''a'', ''b'', ''c'']
   \<and> processBlockOfLines [''1,2''] [''a'', ''b'', ''c''] = [Record [(''a'', ''1''), (''b'', ''2'')]]"
proof -
  have n: "[''a'', ''7'', ''c''] \<noteq> []" and n': "[''a'', ''b'', ''c''] \<noteq> []" by simp_all
  have d: "distinct [''a'', ''7'', ''c'']" and d': "distinct [''a'', ''b'', ''c'']" by simp_all
  have q: "''__proto__'' \<notin> set [''a'', ''7'', ''c'']" and q': "''__proto__'' \<notin> set [''a'', ''b'', ''c'']"
    by simp_all
  have p: "parseCsvLine ''1,2'' = [''1'', ''2'']" by code_simp
  have r: "forEachHeader [''a'', ''7'', ''c''] 0 [''1'', ''2''] [] = [(''7'', ''2''), (''a'', ''1'')]"
    by code_simp
  have o: "list_all (\<lambda>h. \<not> isArrayIndex h) [''a'', ''b'', ''c'']"
    by code_simp
  show ?thesis
    using record_pairs_header_with_fields [OF n d q, of "''1,2''"]
      record_pairs_header_with_fields [OF n' d' q', of "''1,2''"] n d q p r o
    by (simp add: Let_def)
qed

section \<open>Rows whose cleaning calls give no result\<close>


















end
